theory Spec2Isabelle
  imports Main "HOL-Library.Word"
begin

section \<open>Byte-wise memory operations of memory_ops.c (ARM Cortex-M4)\<close>

text \<open>
  The three functions of \<^verbatim>\<open>memory_ops.c\<close> are a null check in C followed by a block of
  inline Thumb-2 assembly. The target is a 32-bit core, so pointers and \<^verbatim>\<open>size_t\<close> are
  32-bit words whose arithmetic wraps, and a byte is an 8-bit word. Memory is a flat map
  from addresses to bytes in which every address can be loaded and stored; bus faults on
  unmapped addresses are not modelled. The model therefore agrees with the hardware as
  long as a call stays inside the regions it was given, which is the case for every
  non-zero extent; a call with extent 0 leaves them in its first pass, and from then on
  the model keeps running where the hardware would fault.
  Every \<^verbatim>\<open>ldrb\<close> and \<^verbatim>\<open>strb\<close> the assembly executes is
  appended to an access log, so that "performs no memory access" is a statement about
  the log and not only about the final contents.
\<close>

subsection \<open>Data model\<close>

type_synonym addr = "32 word"
type_synonym byte = "8 word"
type_synonym size_t = "32 word"

datatype access = Load addr | Store addr

record machine =
  mem :: "addr \<Rightarrow> byte"
  log :: "access list"

definition NULL :: addr where
  "NULL = 0"

text \<open>The status enumerations of \<^verbatim>\<open>memory_ops.h\<close>, in declaration order.\<close>

datatype MEM_struct_compare_t =
  STRUCTS_ARE_EQUAL | STRUCTS_ARENT_EQUAL | STRUCTS_COMPARE_ERROR | COMPARE_BAD_ADDRESS

datatype MEM_struct_copy_t =
  STRUCT_COPIED | STRUCT_NOT_COPIED | STRUCT_COPY_ERROR | COPY_BAD_ADDRESS

datatype MEM_struct_fill_t =
  STRUCT_FILLED | STRUCT_NOT_FILLED | STRUCT_FILL_ERROR | FILL_BAD_ADDRESS

text \<open>
  The enumerators' integer values. \<^verbatim>\<open>(uint8_t)(1u)\<close> is an 8-bit value promoted to
  \<^verbatim>\<open>int\<close>. \<^verbatim>\<open>ENOSYS\<close> and \<^verbatim>\<open>EFAULT\<close> come from the toolchain's \<^verbatim>\<open>errno.h\<close>, which
  is not part of the repository: they are parameters here.
\<close>

fun compare_value :: "int \<Rightarrow> int \<Rightarrow> MEM_struct_compare_t \<Rightarrow> int" where
  "compare_value ENOSYS EFAULT STRUCTS_ARE_EQUAL = uint (1 :: byte)"
| "compare_value ENOSYS EFAULT STRUCTS_ARENT_EQUAL = uint (0 :: byte)"
| "compare_value ENOSYS EFAULT STRUCTS_COMPARE_ERROR = - ENOSYS"
| "compare_value ENOSYS EFAULT COMPARE_BAD_ADDRESS = - EFAULT"

fun copy_value :: "int \<Rightarrow> int \<Rightarrow> MEM_struct_copy_t \<Rightarrow> int" where
  "copy_value ENOSYS EFAULT STRUCT_COPIED = uint (0 :: byte)"
| "copy_value ENOSYS EFAULT STRUCT_NOT_COPIED = uint (1 :: byte)"
| "copy_value ENOSYS EFAULT STRUCT_COPY_ERROR = - ENOSYS"
| "copy_value ENOSYS EFAULT COPY_BAD_ADDRESS = - EFAULT"

fun fill_value :: "int \<Rightarrow> int \<Rightarrow> MEM_struct_fill_t \<Rightarrow> int" where
  "fill_value ENOSYS EFAULT STRUCT_FILLED = uint (0 :: byte)"
| "fill_value ENOSYS EFAULT STRUCT_NOT_FILLED = uint (1 :: byte)"
| "fill_value ENOSYS EFAULT STRUCT_FILL_ERROR = - ENOSYS"
| "fill_value ENOSYS EFAULT FILL_BAD_ADDRESS = - EFAULT"

subsection \<open>The two memory instructions\<close>

text \<open>
  \<^verbatim>\<open>ldrb rt, [rn], #1\<close> loads the byte at \<open>rn\<close>; \<^verbatim>\<open>strb rt, [rn], #1\<close> stores one.
  The post-increment of \<open>rn\<close> is written at the call sites as \<open>p + 1\<close>.
\<close>

definition ldrb :: "addr \<Rightarrow> machine \<Rightarrow> byte \<times> machine" where
  "ldrb p s = (mem s p, s\<lparr>log := log s @ [Load p]\<rparr>)"

definition strb :: "addr \<Rightarrow> byte \<Rightarrow> machine \<Rightarrow> machine" where
  "strb p v s = s\<lparr>mem := (mem s)(p := v), log := log s @ [Store p]\<rparr>"

subsection \<open>The assembly loops\<close>

text \<open>
  Each loop is entered unconditionally and tests its counter after decrementing it
  (\<^verbatim>\<open>subs %0, %0, #1\<close> then \<^verbatim>\<open>bne\<close>): a do-while loop on a 32-bit counter.
\<close>

function cmp_loop :: "addr \<Rightarrow> addr \<Rightarrow> size_t \<Rightarrow> machine \<Rightarrow> MEM_struct_compare_t \<times> machine" where
  "cmp_loop a b n s =
     (case ldrb a s of (r2, s1) \<Rightarrow>
      case ldrb b s1 of (r3, s2) \<Rightarrow>
        if r2 \<noteq> r3 then (STRUCTS_ARENT_EQUAL, s2)
        else if n - 1 \<noteq> 0 then cmp_loop (a + 1) (b + 1) (n - 1) s2
        else (STRUCTS_ARE_EQUAL, s2))"
  by pat_completeness auto
termination
proof (relation "measure (\<lambda>(a, b, n, s). unat (n - 1))")
  show "wf (measure (\<lambda>(a, b, n, s). unat (n - 1)))"
    by simp
next
  fix a b :: addr and n :: size_t and s :: machine and x r2 s1 y r3 s2
  assume "n - 1 \<noteq> 0"
  then have "unat (n - 1 - 1) < unat (n - 1)"
    by (metis unat_minus_one unat_gt_0 diff_less zero_less_one)
  then show "((a + 1, b + 1, n - 1, s2), (a, b, n, s)) \<in> measure (\<lambda>(a, b, n, s). unat (n - 1))"
    by simp
qed

function copy_loop :: "addr \<Rightarrow> addr \<Rightarrow> size_t \<Rightarrow> machine \<Rightarrow> machine" where
  "copy_loop src dst n s =
     (case ldrb src s of (r2, s1) \<Rightarrow>
      let s2 = strb dst r2 s1 in
        if n - 1 \<noteq> 0 then copy_loop (src + 1) (dst + 1) (n - 1) s2
        else s2)"
  by pat_completeness auto
termination
proof (relation "measure (\<lambda>(src, dst, n, s). unat (n - 1))")
  show "wf (measure (\<lambda>(src, dst, n, s). unat (n - 1)))"
    by simp
next
  fix src dst :: addr and n :: size_t and s :: machine and x r2 s1 s2
  assume "n - 1 \<noteq> 0"
  then have "unat (n - 1 - 1) < unat (n - 1)"
    by (metis unat_minus_one unat_gt_0 diff_less zero_less_one)
  then show "((src + 1, dst + 1, n - 1, s2), (src, dst, n, s)) \<in> measure (\<lambda>(src, dst, n, s). unat (n - 1))"
    by simp
qed

function fill_loop :: "addr \<Rightarrow> size_t \<Rightarrow> byte \<Rightarrow> machine \<Rightarrow> machine" where
  "fill_loop p n r2 s =
     (let s1 = strb p r2 s in
        if n - 1 \<noteq> 0 then fill_loop (p + 1) (n - 1) r2 s1
        else s1)"
  by pat_completeness auto
termination
proof (relation "measure (\<lambda>(p, n, r2, s). unat (n - 1))")
  show "wf (measure (\<lambda>(p, n, r2, s). unat (n - 1)))"
    by simp
next
  fix p :: addr and n :: size_t and r2 :: byte and s s1 :: machine
  assume "n - 1 \<noteq> 0"
  then have "unat (n - 1 - 1) < unat (n - 1)"
    by (metis unat_minus_one unat_gt_0 diff_less zero_less_one)
  then show "((p + 1, n - 1, r2, s1), (p, n, r2, s)) \<in> measure (\<lambda>(p, n, r2, s). unat (n - 1))"
    by simp
qed

subsection \<open>The three entry points\<close>

definition MEM_compareStructs ::
  "addr \<Rightarrow> addr \<Rightarrow> size_t \<Rightarrow> machine \<Rightarrow> MEM_struct_compare_t \<times> machine" where
  "MEM_compareStructs struct_a struct_b sz s =
     (if struct_a = NULL \<or> struct_b = NULL then (COMPARE_BAD_ADDRESS, s)
      else cmp_loop struct_a struct_b sz s)"

definition MEM_copyStruct ::
  "addr \<Rightarrow> addr \<Rightarrow> size_t \<Rightarrow> machine \<Rightarrow> MEM_struct_copy_t \<times> machine" where
  "MEM_copyStruct source destine sz s =
     (if source = NULL \<or> destine = NULL then (COPY_BAD_ADDRESS, s)
      else (STRUCT_COPIED, copy_loop source destine sz s))"

definition MEM_fillStruct ::
  "addr \<Rightarrow> size_t \<Rightarrow> byte \<Rightarrow> machine \<Rightarrow> MEM_struct_fill_t \<times> machine" where
  "MEM_fillStruct struct_ptr sz val s =
     (if struct_ptr = NULL then (FILL_BAD_ADDRESS, s)
      else (STRUCT_FILLED, fill_loop struct_ptr sz val s))"

subsection \<open>Auxiliary notions for the proofs\<close>

text \<open>
  A do-while loop that decrements a 32-bit counter until it is zero runs its body
  \<open>n\<close> times for \<open>n > 0\<close>, and \<open>2 ^ 32\<close> times when entered with \<open>n = 0\<close>: the first
  decrement wraps to \<open>0xFFFFFFFF\<close>. The functions \<open>fill_n\<close>, \<open>copy_n\<close> and \<open>cmp_n\<close>
  are the loop bodies repeated a given number of times; the unrolling lemmas below show
  that the assembly loops are these, run \<open>iterations n\<close> times.
\<close>

definition iterations :: "size_t \<Rightarrow> nat" where
  "iterations n = (if n = 0 then 2 ^ 32 else unat n)"

fun fill_n :: "nat \<Rightarrow> addr \<Rightarrow> byte \<Rightarrow> machine \<Rightarrow> machine" where
  "fill_n 0 p v s = s"
| "fill_n (Suc k) p v s = fill_n k (p + 1) v (strb p v s)"

fun copy_n :: "nat \<Rightarrow> addr \<Rightarrow> addr \<Rightarrow> machine \<Rightarrow> machine" where
  "copy_n 0 src dst s = s"
| "copy_n (Suc k) src dst s =
     (case ldrb src s of (r2, s1) \<Rightarrow> copy_n k (src + 1) (dst + 1) (strb dst r2 s1))"

fun cmp_n :: "nat \<Rightarrow> addr \<Rightarrow> addr \<Rightarrow> machine \<Rightarrow> MEM_struct_compare_t \<times> machine" where
  "cmp_n 0 a b s = (STRUCTS_ARE_EQUAL, s)"
| "cmp_n (Suc k) a b s =
     (case ldrb a s of (r2, s1) \<Rightarrow>
      case ldrb b s1 of (r3, s2) \<Rightarrow>
        if r2 \<noteq> r3 then (STRUCTS_ARENT_EQUAL, s2)
        else cmp_n k (a + 1) (b + 1) s2)"

text \<open>
  The region \<open>[p, p + n)\<close> of the 32-bit address space: \<open>x\<close> lies in it when its
  offset from \<open>p\<close>, computed modulo \<open>2 ^ 32\<close>, is below \<open>n\<close>.
\<close>

definition in_region :: "addr \<Rightarrow> size_t \<Rightarrow> addr \<Rightarrow> bool" where
  "in_region p n x = (x - p < n)"

fun acc_addr :: "access \<Rightarrow> addr" where
  "acc_addr (Load p) = p"
| "acc_addr (Store p) = p"

text \<open>Two concrete memories for the evaluations below: all zero, and the bytes
  1, 2, 3 at \<open>0x20000000 .. 0x20000002\<close> (the start of on-chip SRAM) with zero elsewhere.\<close>

definition ram_zero :: machine where
  "ram_zero = \<lparr>mem = (\<lambda>_. 0), log = []\<rparr>"

definition ram_123 :: machine where
  "ram_123 = \<lparr>mem = (\<lambda>_. 0)(0x20000000 := 1, 0x20000001 := 2, 0x20000002 := 3), log = []\<rparr>"

declare cmp_loop.simps [simp del] copy_loop.simps [simp del] fill_loop.simps [simp del]

section \<open>Loop unrolling\<close>

lemma iterations_pos: "0 < iterations n"
  by (simp add: iterations_def unat_gt_0)

lemma iterations_one: "n - 1 = 0 \<Longrightarrow> iterations n = 1"
  by (simp add: iterations_def)

lemma iterations_step: "n - 1 \<noteq> 0 \<Longrightarrow> iterations n = Suc (iterations (n - 1))"
proof (cases "n = 0")
  case True
  have "unat (- 1 :: size_t) = 4294967295"
    by (simp add: unsigned_minus_1_eq_mask mask_eq_exp_minus_1)
  with True show ?thesis by (simp add: iterations_def)
next
  case False
  assume "n - 1 \<noteq> 0"
  with False show ?thesis
    by (simp add: iterations_def unat_minus_one unat_gt_0)
qed

lemma iterations_nonzero: "n \<noteq> 0 \<Longrightarrow> iterations n = unat n"
  by (simp add: iterations_def)

lemma iterations_le: "iterations n \<le> 2 ^ 32"
  using unsigned_less [of n, where ?'a = nat] by (simp add: iterations_def)

lemma unat_le_iterations: "unat n \<le> iterations n"
  by (simp add: iterations_def)

lemma fill_loop_unroll: "fill_loop p n v s = fill_n (iterations n) p v s"
proof (induction p n v s rule: fill_loop.induct)
  case (1 p n r2 s)
  show ?case
  proof (cases "n - 1 = 0")
    case True
    then show ?thesis
      by (subst fill_loop.simps) (simp add: iterations_one)
  next
    case False
    with "1" show ?thesis
      by (subst fill_loop.simps) (simp add: iterations_step)
  qed
qed

lemma copy_loop_unroll: "copy_loop src dst n s = copy_n (iterations n) src dst s"
proof (induction src dst n s rule: copy_loop.induct)
  case (1 src dst n s)
  show ?case
  proof (cases "n - 1 = 0")
    case True
    then show ?thesis
      by (subst copy_loop.simps) (simp add: iterations_one ldrb_def)
  next
    case False
    have ld: "(mem s src, s\<lparr>log := log s @ [Load src]\<rparr>) = ldrb src s"
      by (simp add: ldrb_def)
    from "1.IH" [OF ld refl False] False show ?thesis
      by (subst copy_loop.simps) (simp add: iterations_step ldrb_def)
  qed
qed

lemma cmp_loop_unroll: "cmp_loop a b n s = cmp_n (iterations n) a b s"
proof (induction a b n s rule: cmp_loop.induct)
  case (1 a b n s)
  show ?case
  proof (cases "n - 1 = 0")
    case True
    then show ?thesis
      by (subst cmp_loop.simps) (simp add: iterations_one ldrb_def)
  next
    case False
    note nz = this
    show ?thesis
    proof (cases "mem s a = mem s b")
      case True
      have la: "(mem s a, s\<lparr>log := log s @ [Load a]\<rparr>) = ldrb a s"
        by (simp add: ldrb_def)
      have lb: "(mem s b, s\<lparr>log := log s @ [Load a, Load b]\<rparr>)
                  = ldrb b (s\<lparr>log := log s @ [Load a]\<rparr>)"
        by (simp add: ldrb_def)
      from True have eq: "\<not> mem s a \<noteq> mem s b"
        by simp
      from "1.IH" [OF la lb eq nz] nz True show ?thesis
        by (subst cmp_loop.simps) (simp add: iterations_step ldrb_def)
    next
      case False
      with nz show ?thesis
        by (subst cmp_loop.simps) (simp add: iterations_step ldrb_def)
    qed
  qed
qed

section \<open>Regions and the effect of the loops\<close>

lemma in_region_iff: "in_region p n x \<longleftrightarrow> (\<exists>i < unat n. x = p + of_nat i)"
proof
  assume "in_region p n x"
  then have "unat (x - p) < unat n"
    by (simp add: in_region_def word_less_nat_alt)
  moreover have "x = p + of_nat (unat (x - p))"
    by simp
  ultimately show "\<exists>i < unat n. x = p + of_nat i"
    by blast
next
  assume "\<exists>i < unat n. x = p + of_nat i"
  then obtain i where i: "i < unat n" and x: "x = p + of_nat i"
    by blast
  have "unat (of_nat i :: addr) \<le> i"
    by (simp add: unat_of_nat)
  with i have "unat (x - p) < unat n"
    by (simp add: x)
  then show "in_region p n x"
    by (simp add: in_region_def word_less_nat_alt)
qed

lemma ex_less_Suc_shift:
  "(\<exists>j < Suc k. x = p + of_nat j) \<longleftrightarrow> x = (p :: addr) \<or> (\<exists>j < k. x = p + 1 + of_nat j)"
proof
  assume "\<exists>j < Suc k. x = p + of_nat j"
  then obtain j where j: "j < Suc k" "x = p + of_nat j" by blast
  show "x = p \<or> (\<exists>j < k. x = p + 1 + of_nat j)"
  proof (cases j)
    case 0
    with j show ?thesis by simp
  next
    case (Suc j')
    with j have "j' < k" "x = p + 1 + of_nat j'" by simp_all
    then show ?thesis by blast
  qed
next
  assume "x = p \<or> (\<exists>j < k. x = p + 1 + of_nat j)"
  then show "\<exists>j < Suc k. x = p + of_nat j"
  proof
    assume "x = p"
    then have "0 < Suc k \<and> x = p + of_nat 0" by simp
    then show ?thesis by blast
  next
    assume "\<exists>j < k. x = p + 1 + of_nat j"
    then obtain j where "j < k" "x = p + 1 + of_nat j" by blast
    then have "Suc j < Suc k \<and> x = p + of_nat (Suc j)" by simp
    then show ?thesis by blast
  qed
qed

lemma mem_fill_n:
  "mem (fill_n k p v s) x = (if \<exists>j < k. x = p + of_nat j then v else mem s x)"
proof (induction k arbitrary: p s)
  case 0
  show ?case by simp
next
  case (Suc k)
  have "mem (fill_n (Suc k) p v s) x
          = (if \<exists>j < k. x = p + 1 + of_nat j then v else mem (strb p v s) x)"
    by (simp only: fill_n.simps Suc.IH)
  also have "\<dots> = (if x = p \<or> (\<exists>j < k. x = p + 1 + of_nat j) then v else mem s x)"
  proof (cases "\<exists>j < k. x = p + 1 + of_nat j")
    case True
    then show ?thesis by (simp only: if_True simp_thms)
  next
    case False
    then have "(\<exists>j < k. x = p + 1 + of_nat j) = False"
      by (simp only: simp_thms)
    then show ?thesis
      by (simp only: if_False simp_thms) (simp add: strb_def)
  qed
  finally show ?case
    by (simp only: ex_less_Suc_shift)
qed

lemma log_fill_n:
  "log (fill_n k p v s) = log s @ map (\<lambda>j. Store (p + of_nat j)) [0..<k]"
proof (induction k arbitrary: p s)
  case 0
  show ?case by simp
next
  case (Suc k)
  have "map (\<lambda>j. Store (p + of_nat j)) [0..<Suc k]
          = Store p # map (\<lambda>j. Store (p + 1 + of_nat j)) [0..<k]"
    by (simp add: upt_rec [of 0 "Suc k"] map_Suc_upt [symmetric] del: upt_Suc add: add.assoc)
  then show ?case
    unfolding fill_n.simps Suc.IH
    by (simp add: strb_def)
qed

lemma of_nat_neq_0_addr: "0 < j \<Longrightarrow> j < 2 ^ 32 \<Longrightarrow> (of_nat j :: addr) \<noteq> 0"
  using of_nat_neq_0 [of j, where ?'a = 32] by simp

lemma word_offset_index: "\<exists>j < 2 ^ 32. (x :: addr) = p + of_nat j"
proof -
  have "unat (x - p) < 2 ^ 32"
    using unsigned_less [of "x - p", where ?'a = nat] by simp
  moreover have "x = p + of_nat (unat (x - p))"
    by simp
  ultimately show ?thesis
    by blast
qed

lemma less_3_cases: "i < (3 :: nat) \<longleftrightarrow> i = 0 \<or> i = 1 \<or> i = 2"
  by auto

subsection \<open>Fill\<close>


lemma fill_zero_extent_all: "mem (fill_loop p 0 v s) x = v"
proof -
  have "\<exists>j < iterations 0. x = p + of_nat j"
    using word_offset_index [of x p] by (simp add: iterations_def)
  then show ?thesis
    by (simp only: fill_loop_unroll mem_fill_n if_True)
qed

subsection \<open>Copy\<close>

lemma mem_ldrb: "mem (snd (ldrb p s)) = mem s"
  by (simp add: ldrb_def)

lemma mem_strb: "mem (strb p v s) x = (if x = p then v else mem s x)"
  by (simp add: strb_def)

lemma copy_n_Suc:
  "copy_n (Suc k) src dst s = copy_n k (src + 1) (dst + 1) (strb dst (mem s src) (snd (ldrb src s)))"
  by (simp add: ldrb_def)

lemma mem_copy_n_frame:
  "(\<forall>j < k. x \<noteq> dst + of_nat j) \<Longrightarrow> mem (copy_n k src dst s) x = mem s x"
proof (induction k arbitrary: src dst s)
  case 0
  show ?case by simp
next
  case (Suc k)
  from Suc.prems have "x \<noteq> dst + of_nat 0"
    by blast
  then have x: "x \<noteq> dst"
    by simp
  have "\<forall>j < k. x \<noteq> dst + 1 + of_nat j"
  proof (intro allI impI)
    fix j assume "j < k"
    then have "Suc j < Suc k" by simp
    with Suc.prems have "x \<noteq> dst + of_nat (Suc j)" by blast
    then show "x \<noteq> dst + 1 + of_nat j" by (simp add: add.assoc)
  qed
  then have "mem (copy_n (Suc k) src dst s) x
               = mem (strb dst (mem s src) (snd (ldrb src s))) x"
    unfolding copy_n_Suc by (rule Suc.IH)
  also have "\<dots> = mem s x"
    using x by (simp add: mem_strb mem_ldrb)
  finally show ?case .
qed

lemma mem_copy_n_disjoint:
  assumes "k \<le> 2 ^ 32"
    and "\<forall>i < k. \<forall>j < k. src + of_nat i \<noteq> dst + of_nat j"
    and "i < k"
  shows "mem (copy_n k src dst s) (dst + of_nat i) = mem s (src + of_nat i)"
  using assms
proof (induction k arbitrary: src dst s i)
  case 0
  then show ?case by simp
next
  case (Suc k)
  let ?s2 = "strb dst (mem s src) (snd (ldrb src s))"
  have k: "k \<le> 2 ^ 32"
    using Suc.prems(1) by simp
  have disj: "\<forall>i < k. \<forall>j < k. src + 1 + of_nat i \<noteq> dst + 1 + of_nat j"
  proof (intro allI impI)
    fix i j assume "i < k" "j < k"
    then have "Suc i < Suc k" "Suc j < Suc k" by simp_all
    with Suc.prems(2) have "src + of_nat (Suc i) \<noteq> dst + of_nat (Suc j)" by blast
    then show "src + 1 + of_nat i \<noteq> dst + 1 + of_nat j" by (simp add: add.assoc)
  qed
  show ?case
  proof (cases i)
    case 0
    have "\<forall>j < k. dst \<noteq> dst + 1 + of_nat j"
    proof (intro allI impI)
      fix j assume "j < k"
      with Suc.prems(1) have "0 < Suc j" "Suc j < 2 ^ 32" by simp_all
      then have "(of_nat (Suc j) :: addr) \<noteq> 0" by (rule of_nat_neq_0_addr)
      then show "dst \<noteq> dst + 1 + of_nat j" by (simp add: add.assoc)
    qed
    then have "mem (copy_n k (src + 1) (dst + 1) ?s2) dst = mem ?s2 dst"
      by (rule mem_copy_n_frame)
    with 0 show ?thesis
      unfolding copy_n_Suc by (simp add: mem_strb)
  next
    case (Suc i')
    with Suc.prems(3) have i': "i' < k" by simp
    have "mem (copy_n k (src + 1) (dst + 1) ?s2) (dst + 1 + of_nat i')
            = mem ?s2 (src + 1 + of_nat i')"
      using k disj i' by (rule Suc.IH)
    moreover have "src + of_nat (Suc i') \<noteq> dst + of_nat 0"
      using Suc.prems(2) Suc.prems(3) Suc by blast
    then have "src + 1 + of_nat i' \<noteq> dst"
      by (simp add: add.assoc)
    ultimately show ?thesis
      unfolding copy_n_Suc Suc by (simp add: mem_strb mem_ldrb add.assoc)
  qed
qed

lemma copy_loop_disjoint:
  assumes "N \<noteq> 0"
    and "\<forall>i < unat N. \<forall>j < unat N. S + of_nat i \<noteq> D + of_nat j"
    and "i < unat N"
  shows "mem (copy_loop S D N s) (D + of_nat i) = mem s (S + of_nat i)"
    and "mem (copy_loop S D N s) (S + of_nat i) = mem s (S + of_nat i)"
proof -
  from assms(1) have it: "iterations N = unat N"
    by (rule iterations_nonzero)
  have le: "unat N \<le> 2 ^ 32"
    using iterations_le [of N] by (simp only: it)
  show "mem (copy_loop S D N s) (D + of_nat i) = mem s (S + of_nat i)"
    unfolding copy_loop_unroll it using le assms(2,3) by (rule mem_copy_n_disjoint)
  from assms(2,3) have "\<forall>j < unat N. S + of_nat i \<noteq> D + of_nat j"
    by blast
  then show "mem (copy_loop S D N s) (S + of_nat i) = mem s (S + of_nat i)"
    unfolding copy_loop_unroll it by (rule mem_copy_n_frame)
qed

lemma copy_zero_extent_first_byte: "mem (copy_loop S D 0 s) D = mem s S"
proof -
  let ?s1 = "strb D (mem s S) (snd (ldrb S s))"
  have it: "iterations 0 = Suc 4294967295"
    by (simp add: iterations_def)
  have unroll: "copy_loop S D 0 s = copy_n 4294967295 (S + 1) (D + 1) ?s1"
    by (simp only: copy_loop_unroll it copy_n_Suc)
  have "\<forall>j < 4294967295. D \<noteq> D + 1 + of_nat j"
  proof (intro allI impI)
    fix j :: nat assume "j < 4294967295"
    then have "(of_nat (Suc j) :: addr) \<noteq> 0" by (intro of_nat_neq_0_addr) simp_all
    then show "D \<noteq> D + 1 + of_nat j" by (simp add: add.assoc)
  qed
  then have "mem (copy_loop S D 0 s) D = mem ?s1 D"
    unfolding unroll by (rule mem_copy_n_frame)
  then show ?thesis
    by (simp add: mem_strb)
qed

lemma copy_zero_extent_two_bytes:
  assumes "S = D + 1"
  shows "mem (copy_loop S D 0 s) D = mem s S"
    and "mem (copy_loop S D 0 s) S = mem s (S + 1)"
proof -
  let ?s1 = "strb D (mem s S) (snd (ldrb S s))"
  let ?s2 = "strb (D + 1) (mem ?s1 (S + 1)) (snd (ldrb (S + 1) ?s1))"
  have it: "iterations 0 = Suc (Suc 4294967294)"
    by (simp add: iterations_def)
  have unroll: "copy_loop S D 0 s = copy_n 4294967294 (S + 1 + 1) (D + 1 + 1) ?s2"
    by (simp only: copy_loop_unroll it copy_n_Suc)
  have nz: "(of_nat j :: addr) \<noteq> 0" if "0 < j" "j < 4294967296" for j
    using of_nat_neq_0_addr [of j] that by simp
  have f0: "\<forall>j < 4294967294. D \<noteq> D + 1 + 1 + of_nat j"
  proof (intro allI impI)
    fix j :: nat assume "j < 4294967294"
    then have "(of_nat (j + 2) :: addr) \<noteq> 0" by (intro nz) simp_all
    then show "D \<noteq> D + 1 + 1 + of_nat j" by (simp add: add.assoc)
  qed
  have f1: "\<forall>j < 4294967294. D + 1 \<noteq> D + 1 + 1 + of_nat j"
  proof (intro allI impI)
    fix j :: nat assume "j < 4294967294"
    then have "(of_nat (j + 1) :: addr) \<noteq> 0" by (intro nz) simp_all
    then show "D + 1 \<noteq> D + 1 + 1 + of_nat j" by (simp add: add.assoc)
  qed
  have "mem (copy_loop S D 0 s) D = mem ?s2 D"
    unfolding unroll using f0 by (rule mem_copy_n_frame)
  then show "mem (copy_loop S D 0 s) D = mem s S"
    by (simp add: mem_strb mem_ldrb)
  have "mem (copy_loop S D 0 s) (D + 1) = mem ?s2 (D + 1)"
    unfolding unroll using f1 by (rule mem_copy_n_frame)
  then show "mem (copy_loop S D 0 s) S = mem s (S + 1)"
    by (simp add: mem_strb mem_ldrb assms)
qed

lemma copy_n_agree:
  assumes "\<forall>x \<in> R. mem s1 x = mem s2 x"
    and "\<forall>j < k. src + of_nat j \<in> R"
  shows "\<forall>x \<in> R. mem (copy_n k src dst s1) x = mem (copy_n k src dst s2) x"
  using assms
proof (induction k arbitrary: src dst s1 s2)
  case 0
  then show ?case by simp
next
  case (Suc k)
  let ?t1 = "strb dst (mem s1 src) (snd (ldrb src s1))"
  let ?t2 = "strb dst (mem s2 src) (snd (ldrb src s2))"
  from Suc.prems(2) have "src + of_nat 0 \<in> R"
    by blast
  then have "src \<in> R"
    by simp
  with Suc.prems(1) have "mem s1 src = mem s2 src"
    by blast
  with Suc.prems(1) have agree: "\<forall>x \<in> R. mem ?t1 x = mem ?t2 x"
    by (simp add: mem_strb mem_ldrb)
  have reads: "\<forall>j < k. src + 1 + of_nat j \<in> R"
  proof (intro allI impI)
    fix j assume "j < k"
    then have "Suc j < Suc k" by simp
    with Suc.prems(2) have "src + of_nat (Suc j) \<in> R" by blast
    then show "src + 1 + of_nat j \<in> R" by (simp add: add.assoc)
  qed
  from agree reads show ?case
    unfolding copy_n_Suc by (rule Suc.IH)
qed

subsection \<open>Compare\<close>

lemma cmp_n_Suc:
  "cmp_n (Suc k) a b s =
     (if mem s a \<noteq> mem s b then (STRUCTS_ARENT_EQUAL, snd (ldrb b (snd (ldrb a s))))
      else cmp_n k (a + 1) (b + 1) (snd (ldrb b (snd (ldrb a s)))))"
  by (simp add: ldrb_def)

lemma mem_cmp_n: "mem (snd (cmp_n k a b s)) = mem s"
proof (induction k arbitrary: a b s)
  case 0
  show ?case by simp
next
  case (Suc k)
  show ?case
    unfolding cmp_n_Suc by (simp add: Suc.IH mem_ldrb)
qed

lemma cmp_n_result:
  "fst (cmp_n k a b s) =
     (if \<forall>j < k. mem s (a + of_nat j) = mem s (b + of_nat j)
      then STRUCTS_ARE_EQUAL else STRUCTS_ARENT_EQUAL)"
proof (induction k arbitrary: a b s)
  case 0
  show ?case by simp
next
  case (Suc k)
  show ?case
  proof (cases "mem s a = mem s b")
    case True
    then show ?thesis
      unfolding cmp_n_Suc
      by (simp add: Suc.IH mem_ldrb All_less_Suc2 add.assoc)
  next
    case False
    then have "\<not> (\<forall>j < Suc k. mem s (a + of_nat j) = mem s (b + of_nat j))"
      by (simp add: All_less_Suc2)
    with False show ?thesis
      unfolding cmp_n_Suc by (simp only: if_True if_False fst_conv simp_thms)
  qed
qed

lemma cmp_loop_result:
  "fst (cmp_loop a b n s) =
     (if \<forall>j < iterations n. mem s (a + of_nat j) = mem s (b + of_nat j)
      then STRUCTS_ARE_EQUAL else STRUCTS_ARENT_EQUAL)"
  by (simp only: cmp_loop_unroll cmp_n_result)

lemma cmp_loop_first_mismatch:
  "mem s a \<noteq> mem s b \<Longrightarrow>
     cmp_loop a b n s = (STRUCTS_ARENT_EQUAL, s\<lparr>log := log s @ [Load a, Load b]\<rparr>)"
  by (subst cmp_loop.simps) (simp add: ldrb_def)

lemma compare_nonzero_extent:
  assumes "a \<noteq> NULL" and "b \<noteq> NULL" and "n \<noteq> 0"
  shows "fst (MEM_compareStructs a b n s) =
           (if \<forall>i < unat n. mem s (a + of_nat i) = mem s (b + of_nat i)
            then STRUCTS_ARE_EQUAL else STRUCTS_ARENT_EQUAL)"
  using assms by (simp add: MEM_compareStructs_def cmp_loop_result iterations_nonzero)

lemma compare_preserves_memory: "mem (snd (MEM_compareStructs a b n s)) = mem s"
  by (simp add: MEM_compareStructs_def cmp_loop_unroll mem_cmp_n)

section \<open>Behaviour for a non-zero extent\<close>

text \<open>
  For an extent \<open>n \<noteq> 0\<close> the loops run \<open>unat n\<close> times. Every byte they load or store
  then lies in a region handed to the call, memory outside the destination is left as
  it was, and what the call returns and leaves in the regions depends on nothing but
  the regions' initial contents.
\<close>

lemma log_cmp_n:
  "\<exists>new. log (snd (cmp_n k a b s)) = log s @ new
     \<and> (\<forall>acc \<in> set new. \<exists>j < k. acc = Load (a + of_nat j) \<or> acc = Load (b + of_nat j))"
proof (induction k arbitrary: a b s)
  case 0
  show ?case by simp
next
  case (Suc k)
  let ?s2 = "snd (ldrb b (snd (ldrb a s)))"
  have s2: "log ?s2 = log s @ [Load a, Load b]"
    by (simp add: ldrb_def)
  show ?case
  proof (cases "mem s a = mem s b")
    case False
    then have "log (snd (cmp_n (Suc k) a b s)) = log s @ [Load a, Load b]"
      unfolding cmp_n_Suc by (simp add: s2)
    moreover have "\<forall>acc \<in> set [Load a, Load b].
        \<exists>j < Suc k. acc = Load (a + of_nat j) \<or> acc = Load (b + of_nat j)"
      by auto
    ultimately show ?thesis
      by blast
  next
    case True
    from Suc.IH [of "a + 1" "b + 1" ?s2] obtain new where
      new: "log (snd (cmp_n k (a + 1) (b + 1) ?s2)) = log ?s2 @ new"
      and acc: "\<forall>acc \<in> set new.
         \<exists>j < k. acc = Load (a + 1 + of_nat j) \<or> acc = Load (b + 1 + of_nat j)"
      by blast
    from True new have "log (snd (cmp_n (Suc k) a b s)) = log s @ ([Load a, Load b] @ new)"
      unfolding cmp_n_Suc by (simp add: s2)
    moreover have "\<forall>acc \<in> set ([Load a, Load b] @ new).
        \<exists>j < Suc k. acc = Load (a + of_nat j) \<or> acc = Load (b + of_nat j)"
    proof
      fix acc assume "acc \<in> set ([Load a, Load b] @ new)"
      then consider "acc = Load a" | "acc = Load b" | "acc \<in> set new"
        by auto
      then show "\<exists>j < Suc k. acc = Load (a + of_nat j) \<or> acc = Load (b + of_nat j)"
      proof cases
        case 1
        then have "0 < Suc k \<and> (acc = Load (a + of_nat 0) \<or> acc = Load (b + of_nat 0))"
          by simp
        then show ?thesis by blast
      next
        case 2
        then have "0 < Suc k \<and> (acc = Load (a + of_nat 0) \<or> acc = Load (b + of_nat 0))"
          by simp
        then show ?thesis by blast
      next
        case 3
        with acc obtain j where "j < k"
          "acc = Load (a + 1 + of_nat j) \<or> acc = Load (b + 1 + of_nat j)"
          by blast
        then have "Suc j < Suc k
           \<and> (acc = Load (a + of_nat (Suc j)) \<or> acc = Load (b + of_nat (Suc j)))"
          by (simp add: add.assoc)
        then show ?thesis by blast
      qed
    qed
    ultimately show ?thesis
      by blast
  qed
qed

lemma log_copy_n:
  "\<exists>new. log (copy_n k src dst s) = log s @ new
     \<and> (\<forall>acc \<in> set new. \<exists>j < k. acc = Load (src + of_nat j) \<or> acc = Store (dst + of_nat j))"
proof (induction k arbitrary: src dst s)
  case 0
  show ?case by simp
next
  case (Suc k)
  let ?s2 = "strb dst (mem s src) (snd (ldrb src s))"
  have s2: "log ?s2 = log s @ [Load src, Store dst]"
    by (simp add: ldrb_def strb_def)
  from Suc.IH [of "src + 1" "dst + 1" ?s2] obtain new where
    new: "log (copy_n k (src + 1) (dst + 1) ?s2) = log ?s2 @ new"
    and acc: "\<forall>acc \<in> set new.
       \<exists>j < k. acc = Load (src + 1 + of_nat j) \<or> acc = Store (dst + 1 + of_nat j)"
    by blast
  from new have "log (copy_n (Suc k) src dst s) = log s @ ([Load src, Store dst] @ new)"
    unfolding copy_n_Suc by (simp add: s2)
  moreover have "\<forall>acc \<in> set ([Load src, Store dst] @ new).
      \<exists>j < Suc k. acc = Load (src + of_nat j) \<or> acc = Store (dst + of_nat j)"
  proof
    fix acc assume "acc \<in> set ([Load src, Store dst] @ new)"
    then consider "acc = Load src" | "acc = Store dst" | "acc \<in> set new"
      by auto
    then show "\<exists>j < Suc k. acc = Load (src + of_nat j) \<or> acc = Store (dst + of_nat j)"
    proof cases
      case 1
      then have "0 < Suc k \<and> (acc = Load (src + of_nat 0) \<or> acc = Store (dst + of_nat 0))"
        by simp
      then show ?thesis by blast
    next
      case 2
      then have "0 < Suc k \<and> (acc = Load (src + of_nat 0) \<or> acc = Store (dst + of_nat 0))"
        by simp
      then show ?thesis by blast
    next
      case 3
      with acc obtain j where "j < k"
        "acc = Load (src + 1 + of_nat j) \<or> acc = Store (dst + 1 + of_nat j)"
        by blast
      then have "Suc j < Suc k
         \<and> (acc = Load (src + of_nat (Suc j)) \<or> acc = Store (dst + of_nat (Suc j)))"
        by (simp add: add.assoc)
      then show ?thesis by blast
    qed
  qed
  ultimately show ?case
    by blast
qed

lemma compare_nonzero_accesses:
  assumes "n \<noteq> 0"
  shows "\<exists>new. log (snd (MEM_compareStructs a b n s)) = log s @ new
           \<and> (\<forall>acc \<in> set new. in_region a n (acc_addr acc) \<or> in_region b n (acc_addr acc))"
proof (cases "a = NULL \<or> b = NULL")
  case True
  then have "log (snd (MEM_compareStructs a b n s)) = log s @ []"
    by (simp add: MEM_compareStructs_def)
  then show ?thesis
    by (metis empty_iff list.set(1))
next
  case False
  from log_cmp_n [of "unat n" a b s] obtain new where
    new: "log (snd (cmp_n (unat n) a b s)) = log s @ new"
    and acc: "\<forall>acc \<in> set new.
       \<exists>j < unat n. acc = Load (a + of_nat j) \<or> acc = Load (b + of_nat j)"
    by blast
  from False new have "log (snd (MEM_compareStructs a b n s)) = log s @ new"
    by (simp add: MEM_compareStructs_def cmp_loop_unroll iterations_nonzero [OF assms])
  moreover have "\<forall>acc \<in> set new. in_region a n (acc_addr acc) \<or> in_region b n (acc_addr acc)"
  proof
    fix x assume "x \<in> set new"
    with acc obtain j where "j < unat n" "x = Load (a + of_nat j) \<or> x = Load (b + of_nat j)"
      by blast
    then show "in_region a n (acc_addr x) \<or> in_region b n (acc_addr x)"
      unfolding in_region_iff by auto
  qed
  ultimately show ?thesis
    by blast
qed

lemma copy_nonzero_accesses:
  assumes "n \<noteq> 0"
  shows "\<exists>new. log (snd (MEM_copyStruct src dst n s)) = log s @ new
           \<and> (\<forall>acc \<in> set new. in_region src n (acc_addr acc) \<or> in_region dst n (acc_addr acc))"
proof (cases "src = NULL \<or> dst = NULL")
  case True
  then have "log (snd (MEM_copyStruct src dst n s)) = log s @ []"
    by (simp add: MEM_copyStruct_def)
  then show ?thesis
    by (metis empty_iff list.set(1))
next
  case False
  from log_copy_n [of "unat n" src dst s] obtain new where
    new: "log (copy_n (unat n) src dst s) = log s @ new"
    and acc: "\<forall>acc \<in> set new.
       \<exists>j < unat n. acc = Load (src + of_nat j) \<or> acc = Store (dst + of_nat j)"
    by blast
  from False new have "log (snd (MEM_copyStruct src dst n s)) = log s @ new"
    by (simp add: MEM_copyStruct_def copy_loop_unroll iterations_nonzero [OF assms])
  moreover have "\<forall>acc \<in> set new. in_region src n (acc_addr acc) \<or> in_region dst n (acc_addr acc)"
  proof
    fix x assume "x \<in> set new"
    with acc obtain j where "j < unat n" "x = Load (src + of_nat j) \<or> x = Store (dst + of_nat j)"
      by blast
    then show "in_region src n (acc_addr x) \<or> in_region dst n (acc_addr x)"
      unfolding in_region_iff by auto
  qed
  ultimately show ?thesis
    by blast
qed

lemma fill_nonzero_accesses:
  assumes "n \<noteq> 0"
  shows "\<exists>new. log (snd (MEM_fillStruct p n v s)) = log s @ new
           \<and> (\<forall>acc \<in> set new. in_region p n (acc_addr acc))"
proof (cases "p = NULL")
  case True
  then have "log (snd (MEM_fillStruct p n v s)) = log s @ []"
    by (simp add: MEM_fillStruct_def)
  then show ?thesis
    by (metis empty_iff list.set(1))
next
  case False
  let ?new = "map (\<lambda>j. Store (p + of_nat j)) [0..<unat n]"
  from False have "log (snd (MEM_fillStruct p n v s)) = log s @ ?new"
    by (simp add: MEM_fillStruct_def fill_loop_unroll iterations_nonzero [OF assms] log_fill_n)
  moreover have "\<forall>acc \<in> set ?new. in_region p n (acc_addr acc)"
    unfolding in_region_iff by auto
  ultimately show ?thesis
    by blast
qed

lemma copy_nonzero_frame:
  assumes "n \<noteq> 0" and "\<not> in_region dst n x"
  shows "mem (snd (MEM_copyStruct src dst n s)) x = mem s x"
proof -
  from assms(2) have "\<forall>j < unat n. x \<noteq> dst + of_nat j"
    unfolding in_region_iff by blast
  then have "mem (copy_n (unat n) src dst s) x = mem s x"
    by (rule mem_copy_n_frame)
  then show ?thesis
    by (simp add: MEM_copyStruct_def copy_loop_unroll iterations_nonzero [OF assms(1)])
qed

lemma fill_nonzero_frame:
  assumes "n \<noteq> 0" and "\<not> in_region p n x"
  shows "mem (snd (MEM_fillStruct p n v s)) x = mem s x"
proof -
  from assms(2) have "\<not> (\<exists>j < unat n. x = p + of_nat j)"
    unfolding in_region_iff by blast
  then have "mem (fill_n (unat n) p v s) x = mem s x"
    by (simp only: mem_fill_n if_False)
  then show ?thesis
    by (simp add: MEM_fillStruct_def fill_loop_unroll iterations_nonzero [OF assms(1)])
qed

lemma compare_nonzero_depends_on_regions:
  assumes "n \<noteq> 0"
    and "\<forall>x. in_region a n x \<or> in_region b n x \<longrightarrow> mem s1 x = mem s2 x"
  shows "fst (MEM_compareStructs a b n s1) = fst (MEM_compareStructs a b n s2)"
proof (cases "a = NULL \<or> b = NULL")
  case True
  then show ?thesis
    by (simp add: MEM_compareStructs_def)
next
  case False
  have "mem s1 (a + of_nat i) = mem s2 (a + of_nat i)
        \<and> mem s1 (b + of_nat i) = mem s2 (b + of_nat i)" if "i < unat n" for i
  proof -
    from that have "in_region a n (a + of_nat i)" "in_region b n (b + of_nat i)"
      unfolding in_region_iff by blast+
    with assms(2) show ?thesis
      by blast
  qed
  then have "(\<forall>i < unat n. mem s1 (a + of_nat i) = mem s1 (b + of_nat i))
               \<longleftrightarrow> (\<forall>i < unat n. mem s2 (a + of_nat i) = mem s2 (b + of_nat i))"
    by simp
  with False assms(1) show ?thesis
    by (simp add: compare_nonzero_extent)
qed

lemma copy_nonzero_depends_on_regions:
  assumes "n \<noteq> 0"
    and "\<forall>x. in_region src n x \<or> in_region dst n x \<longrightarrow> mem s1 x = mem s2 x"
    and "in_region src n x \<or> in_region dst n x"
  shows "mem (snd (MEM_copyStruct src dst n s1)) x = mem (snd (MEM_copyStruct src dst n s2)) x"
proof (cases "src = NULL \<or> dst = NULL")
  case True
  from assms(2,3) have "mem s1 x = mem s2 x"
    by blast
  with True show ?thesis
    by (simp add: MEM_copyStruct_def)
next
  case False
  let ?R = "{x. in_region src n x \<or> in_region dst n x}"
  from assms(2) have agree: "\<forall>x \<in> ?R. mem s1 x = mem s2 x"
    by simp
  have reads: "\<forall>j < unat n. src + of_nat j \<in> ?R"
    unfolding in_region_iff by blast
  from agree reads
  have "\<forall>x \<in> ?R. mem (copy_n (unat n) src dst s1) x = mem (copy_n (unat n) src dst s2) x"
    by (rule copy_n_agree)
  with assms(3) have "mem (copy_n (unat n) src dst s1) x = mem (copy_n (unat n) src dst s2) x"
    by blast
  with False show ?thesis
    by (simp add: MEM_copyStruct_def copy_loop_unroll iterations_nonzero [OF assms(1)])
qed

lemma fill_nonzero_sets_every_byte:
  assumes "D \<noteq> NULL" and "N \<noteq> 0"
  shows "fst (MEM_fillStruct D N V s) = STRUCT_FILLED
         \<and> (\<forall>i < unat N. mem (snd (MEM_fillStruct D N V s)) (D + of_nat i) = V)"
proof -
  have "mem (fill_loop D N V s) (D + of_nat i) = V" if "i < unat N" for i
  proof -
    from that have "\<exists>j < unat N. D + of_nat i = D + of_nat j"
      by blast
    then show ?thesis
      by (simp only: fill_loop_unroll iterations_nonzero [OF assms(2)] mem_fill_n if_True)
  qed
  with assms(1) show ?thesis
    by (simp add: MEM_fillStruct_def)
qed

lemma compare_nonzero_value:
  assumes "a \<noteq> NULL" and "b \<noteq> NULL" and "n \<noteq> 0"
  shows "compare_value ENOSYS EFAULT (fst (MEM_compareStructs a b n s)) =
           (if \<forall>i < unat n. mem s (a + of_nat i) = mem s (b + of_nat i) then 1 else 0)"
  using assms by (simp add: compare_nonzero_extent)

section \<open>Extent zero\<close>

text \<open>
  C1. The claim: for non-null references and extent 0, compare, copy and fill return a
  success code without any memory access and leave every byte unchanged. The loops test
  the counter only after the first pass and after decrementing it, so the code does
  access memory: compare of \<open>0x20000000\<close> with \<open>0x20000001\<close> and extent 0 loads one byte
  from each buffer (and reports a difference), copy stores the first source byte into
  the destination, and fill stores the fill value into the destination.
\<close>

theorem zero_extent_accesses_memory:
  "MEM_compareStructs 0x20000000 0x20000001 0 ram_123
     = (STRUCTS_ARENT_EQUAL, ram_123\<lparr>log := [Load 0x20000000, Load 0x20000001]\<rparr>)
   \<and> fst (MEM_copyStruct 0x20000000 0x20000100 0 ram_123) = STRUCT_COPIED
   \<and> mem ram_123 0x20000100 = 0
   \<and> mem (snd (MEM_copyStruct 0x20000000 0x20000100 0 ram_123)) 0x20000100 = 1
   \<and> fst (MEM_fillStruct 0x20000000 0 0xAA ram_123) = STRUCT_FILLED
   \<and> mem ram_123 0x20000000 = 1
   \<and> mem (snd (MEM_fillStruct 0x20000000 0 0xAA ram_123)) 0x20000000 = 0xAA"
proof -
  have "mem ram_123 0x20000000 \<noteq> mem ram_123 0x20000001"
    by (simp add: ram_123_def)
  then have "cmp_loop 0x20000000 0x20000001 0 ram_123
               = (STRUCTS_ARENT_EQUAL, ram_123\<lparr>log := log ram_123 @ [Load 0x20000000, Load 0x20000001]\<rparr>)"
    by (rule cmp_loop_first_mismatch)
  then have cmp: "MEM_compareStructs 0x20000000 0x20000001 0 ram_123
     = (STRUCTS_ARENT_EQUAL, ram_123\<lparr>log := [Load 0x20000000, Load 0x20000001]\<rparr>)"
    by (simp add: MEM_compareStructs_def NULL_def ram_123_def)
  have cpy: "mem (snd (MEM_copyStruct 0x20000000 0x20000100 0 ram_123)) 0x20000100 = 1"
    by (simp add: MEM_copyStruct_def NULL_def copy_zero_extent_first_byte ram_123_def)
  have fil: "mem (snd (MEM_fillStruct 0x20000000 0 0xAA ram_123)) 0x20000000 = 0xAA"
    by (simp add: MEM_fillStruct_def NULL_def fill_zero_extent_all)
  from cmp cpy fil show ?thesis
    by (simp add: MEM_copyStruct_def MEM_fillStruct_def NULL_def ram_123_def)
qed

text \<open>
  C2. The claim: no operation reads or writes outside \<open>[address, address + extent)\<close>. With
  extent 0 that region is empty, yet compare loads the bytes at \<open>0x20000000\<close> and
  \<open>0x20000001\<close>, and a fill of the region starting at \<open>0x20000001\<close> overwrites the byte
  in front of it at \<open>0x20000000\<close>: the counter wraps and the pointer runs through the
  whole address space.
\<close>

theorem zero_extent_access_outside_region:
  "log (snd (MEM_compareStructs 0x20000000 0x20000001 0 ram_123))
     = [Load 0x20000000, Load 0x20000001]
   \<and> \<not> in_region 0x20000000 0 0x20000000
   \<and> \<not> in_region 0x20000001 0 0x20000001
   \<and> \<not> in_region 0x20000001 0 0x20000000
   \<and> mem ram_123 0x20000000 = 1
   \<and> mem (snd (MEM_fillStruct 0x20000001 0 0xAA ram_123)) 0x20000000 = 0xAA"
proof -
  have "mem ram_123 0x20000000 \<noteq> mem ram_123 0x20000001"
    by (simp add: ram_123_def)
  then have "cmp_loop 0x20000000 0x20000001 0 ram_123
               = (STRUCTS_ARENT_EQUAL, ram_123\<lparr>log := log ram_123 @ [Load 0x20000000, Load 0x20000001]\<rparr>)"
    by (rule cmp_loop_first_mismatch)
  then have cmp: "log (snd (MEM_compareStructs 0x20000000 0x20000001 0 ram_123))
     = [Load 0x20000000, Load 0x20000001]"
    by (simp add: MEM_compareStructs_def NULL_def ram_123_def)
  have fil: "mem (snd (MEM_fillStruct 0x20000001 0 0xAA ram_123)) 0x20000000 = 0xAA"
    by (simp add: MEM_fillStruct_def NULL_def fill_zero_extent_all)
  from cmp fil show ?thesis
    by (simp add: in_region_def ram_123_def)
qed

text \<open>
  C3. The claim: for non-null buffers of length N, compare returns EQUAL exactly when
  the bytes agree at every index below N. At length 0 there is no index below N, so the
  answer should be EQUAL; the code compares the bytes at offset 0 all the same and
  returns STRUCTS_ARENT_EQUAL when they differ. (For a non-zero length the claim holds:
  lemma \<open>compare_nonzero_extent\<close>.)
\<close>

theorem zero_extent_compare_not_equal:
  "(0x20000000 :: addr) \<noteq> NULL \<and> (0x20000001 :: addr) \<noteq> NULL
   \<and> unat (0 :: size_t) = 0
   \<and> fst (MEM_compareStructs 0x20000000 0x20000001 0 ram_123) = STRUCTS_ARENT_EQUAL"
  by (simp add: MEM_compareStructs_def NULL_def cmp_loop_first_mismatch ram_123_def)

text \<open>
  C9. The claim: the result of an operation is determined by its arguments and the
  initial contents of the referenced regions, and nothing outside them is read. With
  extent 0 both regions of a compare are empty, so any two memories agree on them; the
  value returned still differs between a memory whose bytes at the two base addresses
  differ and the all-zero memory. (For a non-zero extent the claim holds: lemmas
  \<open>compare_nonzero_depends_on_regions\<close>, \<open>copy_nonzero_depends_on_regions\<close> and the
  lemmas on accesses and frames above.)
\<close>

theorem zero_extent_result_depends_on_outside:
  "\<not> in_region 0x20000000 0 0x20000000 \<and> \<not> in_region 0x20000001 0 0x20000001
   \<and> MEM_compareStructs 0x20000000 0x20000001 0 ram_123
       = (STRUCTS_ARENT_EQUAL, ram_123\<lparr>log := [Load 0x20000000, Load 0x20000001]\<rparr>)
   \<and> fst (MEM_compareStructs 0x20000000 0x20000001 0 ram_zero) = STRUCTS_ARE_EQUAL"
proof -
  have "MEM_compareStructs 0x20000000 0x20000001 0 ram_123
       = (STRUCTS_ARENT_EQUAL, ram_123\<lparr>log := [Load 0x20000000, Load 0x20000001]\<rparr>)"
    by (simp add: MEM_compareStructs_def NULL_def cmp_loop_first_mismatch ram_123_def)
  moreover have "fst (MEM_compareStructs 0x20000000 0x20000001 0 ram_zero) = STRUCTS_ARE_EQUAL"
    by (simp add: MEM_compareStructs_def NULL_def cmp_loop_result ram_zero_def)
  ultimately show ?thesis
    by (simp add: in_region_def)
qed


text \<open>
  C10. The claim: compare returns the integer 1 (STRUCTS_ARE_EQUAL) when the buffers
  are equal and 0 (STRUCTS_ARENT_EQUAL) when they differ, the success codes of copy and
  fill are 0, and every BAD_ADDRESS code is \<open>- EFAULT\<close>. The integer values are those of
  the header (lemma \<open>status_values\<close>), and for a non-zero extent compare returns 1 for
  equal and 0 for different buffers (lemma \<open>compare_nonzero_value\<close>). Two buffers of
  extent 0 are equal, having no byte at which to differ, yet the code returns 0 when
  the bytes at offset 0 differ, whatever the values of \<open>ENOSYS\<close> and \<open>EFAULT\<close>.
\<close>

theorem zero_extent_compare_returns_zero:
  "(0x20000000 :: addr) \<noteq> NULL \<and> (0x20000001 :: addr) \<noteq> NULL
   \<and> unat (0 :: size_t) = 0
   \<and> compare_value ENOSYS EFAULT STRUCTS_ARE_EQUAL = 1
   \<and> compare_value ENOSYS EFAULT
         (fst (MEM_compareStructs 0x20000000 0x20000001 0 ram_123)) = 0"
  by (simp add: MEM_compareStructs_def NULL_def cmp_loop_first_mismatch ram_123_def)

section \<open>Null references\<close>

text \<open>
  C4. With a null reference in any pointer argument, compare, copy and fill return
  their BAD_ADDRESS code for every extent and fill value, and the machine state comes
  back as it was: the memory is unchanged and the access log has no new entry, so no
  byte was read or written.
\<close>

theorem null_reference_rejected_without_access:
  "MEM_compareStructs NULL b n s = (COMPARE_BAD_ADDRESS, s)
   \<and> MEM_compareStructs a NULL n s = (COMPARE_BAD_ADDRESS, s)
   \<and> MEM_copyStruct NULL d n s = (COPY_BAD_ADDRESS, s)
   \<and> MEM_copyStruct src NULL n s = (COPY_BAD_ADDRESS, s)
   \<and> MEM_fillStruct NULL n v s = (FILL_BAD_ADDRESS, s)"
  by (simp add: MEM_compareStructs_def MEM_copyStruct_def MEM_fillStruct_def)

section \<open>Copy\<close>

text \<open>
  C5, as amended. For non-null source S and destination D and an extent N of at least 1
  such that the regions \<open>[S, S + N)\<close> and \<open>[D, D + N)\<close> have no address in common, copy
  returns STRUCT_COPIED, afterwards the destination byte at every index below N equals
  the source byte at that index before the call, and every source byte is as before.
\<close>

theorem copy_disjoint_regions:
  assumes "S \<noteq> NULL" and "D \<noteq> NULL" and "N \<noteq> 0"
    and "\<forall>i < unat N. \<forall>j < unat N. S + of_nat i \<noteq> D + of_nat j"
  shows "fst (MEM_copyStruct S D N s) = STRUCT_COPIED
         \<and> (\<forall>i < unat N.
               mem (snd (MEM_copyStruct S D N s)) (D + of_nat i) = mem s (S + of_nat i)
               \<and> mem (snd (MEM_copyStruct S D N s)) (S + of_nat i) = mem s (S + of_nat i))"
proof -
  have "mem (copy_loop S D N s) (D + of_nat i) = mem s (S + of_nat i)
        \<and> mem (copy_loop S D N s) (S + of_nat i) = mem s (S + of_nat i)"
    if "i < unat N" for i
    using copy_loop_disjoint [OF assms(3,4) that, of s] by simp
  with assms(1,2) show ?thesis
    by (simp add: MEM_copyStruct_def)
qed

text \<open>An instance: three bytes copied from \<open>0x20000000\<close> to \<open>0x20000100\<close>.\<close>

theorem copy_disjoint_regions_witness:
  "(0x20000000 :: addr) \<noteq> NULL \<and> (0x20000100 :: addr) \<noteq> NULL \<and> (3 :: size_t) \<noteq> 0
   \<and> fst (MEM_copyStruct 0x20000000 0x20000100 3 ram_123) = STRUCT_COPIED
   \<and> mem (snd (MEM_copyStruct 0x20000000 0x20000100 3 ram_123)) 0x20000100 = 1
   \<and> mem (snd (MEM_copyStruct 0x20000000 0x20000100 3 ram_123)) 0x20000101 = 2
   \<and> mem (snd (MEM_copyStruct 0x20000000 0x20000100 3 ram_123)) 0x20000102 = 3
   \<and> mem (snd (MEM_copyStruct 0x20000000 0x20000100 3 ram_123)) 0x20000000 = 1
   \<and> mem (snd (MEM_copyStruct 0x20000000 0x20000100 3 ram_123)) 0x20000001 = 2
   \<and> mem (snd (MEM_copyStruct 0x20000000 0x20000100 3 ram_123)) 0x20000002 = 3"
proof -
  have h1: "(0x20000000 :: addr) \<noteq> NULL" and h2: "(0x20000100 :: addr) \<noteq> NULL"
    by (simp_all add: NULL_def)
  have h3: "(3 :: size_t) \<noteq> 0"
    by simp
  have h4: "\<forall>i < unat (3 :: size_t). \<forall>j < unat (3 :: size_t).
              (0x20000000 :: addr) + of_nat i \<noteq> 0x20000100 + of_nat j"
    by (simp add: less_3_cases)
  from copy_disjoint_regions [OF h1 h2 h3 h4, of ram_123] h1 h2 h3 h4 show ?thesis
    by (simp add: less_3_cases ram_123_def)
qed

text \<open>
  Without the condition on the regions the claim fails. Copying two bytes from
  \<open>0x20000000\<close> to \<open>0x20000001\<close> overwrites the second source byte (2 becomes 1) before it
  is read, so the source is changed and the second destination byte is not the second
  source byte.
\<close>

theorem copy_overlap_counterexample:
  "(0x20000000 :: addr) \<noteq> NULL \<and> (0x20000001 :: addr) \<noteq> NULL
   \<and> fst (MEM_copyStruct 0x20000000 0x20000001 2 ram_123) = STRUCT_COPIED
   \<and> mem ram_123 (0x20000000 + 1) = 2
   \<and> mem (snd (MEM_copyStruct 0x20000000 0x20000001 2 ram_123)) (0x20000000 + 1) = 1
   \<and> mem (snd (MEM_copyStruct 0x20000000 0x20000001 2 ram_123)) (0x20000001 + 1) = 1"
  by (simp add: MEM_copyStruct_def NULL_def copy_loop.simps strb_def ldrb_def ram_123_def)

section \<open>Copy followed by compare\<close>

text \<open>
  C7, as amended. For non-null S and D and an extent N of at least 1 such that the
  regions \<open>[S, S + N)\<close> and \<open>[D, D + N)\<close> have no address in common, compare(S, D, N) on
  the memory left by copy(S, D, N) returns STRUCTS_ARE_EQUAL.
\<close>

theorem copy_then_compare_equal:
  assumes "S \<noteq> NULL" and "D \<noteq> NULL" and "N \<noteq> 0"
    and "\<forall>i < unat N. \<forall>j < unat N. S + of_nat i \<noteq> D + of_nat j"
  shows "fst (MEM_compareStructs S D N (snd (MEM_copyStruct S D N s))) = STRUCTS_ARE_EQUAL"
proof -
  have "mem (copy_loop S D N s) (S + of_nat j) = mem (copy_loop S D N s) (D + of_nat j)"
    if "j < unat N" for j
    using copy_loop_disjoint [OF assms(3,4) that, of s] by simp
  then have "\<forall>j < iterations N.
       mem (copy_loop S D N s) (S + of_nat j) = mem (copy_loop S D N s) (D + of_nat j)"
    by (simp add: iterations_nonzero [OF assms(3)])
  then have "fst (cmp_loop S D N (copy_loop S D N s)) = STRUCTS_ARE_EQUAL"
    unfolding cmp_loop_result by (rule if_P)
  with assms(1,2) show ?thesis
    by (simp add: MEM_compareStructs_def MEM_copyStruct_def)
qed

text \<open>An instance: three bytes copied from \<open>0x20000000\<close> to \<open>0x20000100\<close>, then compared.\<close>

theorem copy_then_compare_equal_witness:
  "(0x20000000 :: addr) \<noteq> NULL \<and> (0x20000100 :: addr) \<noteq> NULL \<and> (3 :: size_t) \<noteq> 0
   \<and> fst (MEM_compareStructs 0x20000000 0x20000100 3
            (snd (MEM_copyStruct 0x20000000 0x20000100 3 ram_123))) = STRUCTS_ARE_EQUAL"
proof -
  have h1: "(0x20000000 :: addr) \<noteq> NULL" and h2: "(0x20000100 :: addr) \<noteq> NULL"
    by (simp_all add: NULL_def)
  have h3: "(3 :: size_t) \<noteq> 0"
    by simp
  have h4: "\<forall>i < unat (3 :: size_t). \<forall>j < unat (3 :: size_t).
              (0x20000000 :: addr) + of_nat i \<noteq> 0x20000100 + of_nat j"
    by (simp add: less_3_cases)
  from copy_then_compare_equal [OF h1 h2 h3 h4, of ram_123] h1 h2 h3 h4 show ?thesis
    by simp
qed

text \<open>
  For arbitrary S, D and N the round trip fails. With the destination one byte below the
  source and N = 2, the copy overwrites the first source byte after it was copied and
  the compare reports a difference; the same happens with N = 0, where the copy runs
  through the whole address space; and with a null source both calls only return their
  BAD_ADDRESS code.
\<close>

theorem copy_then_compare_counterexample:
  "(0x20000001 :: addr) \<noteq> NULL \<and> (0x20000000 :: addr) \<noteq> NULL
   \<and> fst (MEM_compareStructs 0x20000001 0x20000000 2
            (snd (MEM_copyStruct 0x20000001 0x20000000 2 ram_123))) = STRUCTS_ARENT_EQUAL
   \<and> fst (MEM_compareStructs 0x20000001 0x20000000 0
            (snd (MEM_copyStruct 0x20000001 0x20000000 0 ram_123))) = STRUCTS_ARENT_EQUAL
   \<and> fst (MEM_compareStructs NULL 0x20000000 2
            (snd (MEM_copyStruct NULL 0x20000000 2 ram_123))) = COMPARE_BAD_ADDRESS"
proof -
  have a: "fst (MEM_compareStructs 0x20000001 0x20000000 2
            (snd (MEM_copyStruct 0x20000001 0x20000000 2 ram_123))) = STRUCTS_ARENT_EQUAL"
    by (simp add: MEM_compareStructs_def MEM_copyStruct_def NULL_def copy_loop.simps
        cmp_loop.simps strb_def ldrb_def ram_123_def)
  have "mem (copy_loop 0x20000001 0x20000000 0 ram_123) 0x20000000 = 2"
    using copy_zero_extent_two_bytes(1) [of "0x20000001" "0x20000000" ram_123]
    by (simp add: ram_123_def)
  moreover have "mem (copy_loop 0x20000001 0x20000000 0 ram_123) 0x20000001 = 3"
    using copy_zero_extent_two_bytes(2) [of "0x20000001" "0x20000000" ram_123]
    by (simp add: ram_123_def)
  ultimately have "mem (copy_loop 0x20000001 0x20000000 0 ram_123) 0x20000001
                     \<noteq> mem (copy_loop 0x20000001 0x20000000 0 ram_123) 0x20000000"
    by simp
  then have b: "fst (MEM_compareStructs 0x20000001 0x20000000 0
            (snd (MEM_copyStruct 0x20000001 0x20000000 0 ram_123))) = STRUCTS_ARENT_EQUAL"
    by (simp add: MEM_compareStructs_def MEM_copyStruct_def NULL_def cmp_loop_first_mismatch)
  have c: "fst (MEM_compareStructs NULL 0x20000000 2
            (snd (MEM_copyStruct NULL 0x20000000 2 ram_123))) = COMPARE_BAD_ADDRESS"
    by (simp add: MEM_compareStructs_def)
  from a b c show ?thesis
    by (simp add: NULL_def)
qed

section \<open>Status codes\<close>

text \<open>
  C8. For every input, compare returns one of STRUCTS_ARE_EQUAL, STRUCTS_ARENT_EQUAL and
  COMPARE_BAD_ADDRESS, copy one of STRUCT_COPIED and COPY_BAD_ADDRESS, fill one of
  STRUCT_FILLED and FILL_BAD_ADDRESS; STRUCT_NOT_COPIED, STRUCT_NOT_FILLED and the three
  ENOSYS-based codes are never returned.
\<close>

theorem status_codes_closed:
  "fst (MEM_compareStructs a b n s) \<in> {STRUCTS_ARE_EQUAL, STRUCTS_ARENT_EQUAL, COMPARE_BAD_ADDRESS}
   \<and> fst (MEM_compareStructs a b n s) \<noteq> STRUCTS_COMPARE_ERROR
   \<and> fst (MEM_copyStruct src dst n s) \<in> {STRUCT_COPIED, COPY_BAD_ADDRESS}
   \<and> fst (MEM_copyStruct src dst n s) \<noteq> STRUCT_NOT_COPIED
   \<and> fst (MEM_copyStruct src dst n s) \<noteq> STRUCT_COPY_ERROR
   \<and> fst (MEM_fillStruct p n v s) \<in> {STRUCT_FILLED, FILL_BAD_ADDRESS}
   \<and> fst (MEM_fillStruct p n v s) \<noteq> STRUCT_NOT_FILLED
   \<and> fst (MEM_fillStruct p n v s) \<noteq> STRUCT_FILL_ERROR"
  by (simp add: MEM_compareStructs_def MEM_copyStruct_def MEM_fillStruct_def cmp_loop_result)

text \<open>
  The integer values of the codes, for any positive \<open>EFAULT\<close> (as \<open>errno.h\<close> defines
  it): STRUCTS_ARE_EQUAL is 1 and STRUCTS_ARENT_EQUAL is 0, the reverse of \<open>memcmp\<close>;
  STRUCT_COPIED and STRUCT_FILLED are 0; each BAD_ADDRESS code is \<open>- EFAULT\<close>, which is
  negative and differs from 0 and 1.
\<close>

lemma status_values:
  assumes "0 < EFAULT"
  shows "compare_value ENOSYS EFAULT STRUCTS_ARE_EQUAL = 1
   \<and> compare_value ENOSYS EFAULT STRUCTS_ARENT_EQUAL = 0
   \<and> copy_value ENOSYS EFAULT STRUCT_COPIED = 0
   \<and> fill_value ENOSYS EFAULT STRUCT_FILLED = 0
   \<and> compare_value ENOSYS EFAULT COMPARE_BAD_ADDRESS = - EFAULT
   \<and> copy_value ENOSYS EFAULT COPY_BAD_ADDRESS = - EFAULT
   \<and> fill_value ENOSYS EFAULT FILL_BAD_ADDRESS = - EFAULT
   \<and> - EFAULT < 0 \<and> - EFAULT \<noteq> 0 \<and> - EFAULT \<noteq> 1
   \<and> (compare_value ENOSYS EFAULT (fst (MEM_compareStructs a b n s)) = 1
        \<longleftrightarrow> fst (MEM_compareStructs a b n s) = STRUCTS_ARE_EQUAL)
   \<and> (compare_value ENOSYS EFAULT (fst (MEM_compareStructs a b n s)) = 0
        \<longleftrightarrow> fst (MEM_compareStructs a b n s) = STRUCTS_ARENT_EQUAL)
   \<and> (copy_value ENOSYS EFAULT (fst (MEM_copyStruct src dst n s)) = 0
        \<longleftrightarrow> fst (MEM_copyStruct src dst n s) = STRUCT_COPIED)
   \<and> (fill_value ENOSYS EFAULT (fst (MEM_fillStruct p n v s)) = 0
        \<longleftrightarrow> fst (MEM_fillStruct p n v s) = STRUCT_FILLED)"
  using assms
  by (simp add: MEM_compareStructs_def MEM_copyStruct_def MEM_fillStruct_def cmp_loop_result)

end
